theory Spec2Isabelle
  imports Complex_Main
begin

section \<open>Objects, references and the heap\<close>

text \<open>
  The objects of \<^verbatim>\<open>grayboxes/base.py\<close> refer to each other (a node holds its leader and
  the list of its followers, and a node may sit in the follower lists of several nodes),
  so the objects live in a heap: a reference is an address, and the heap gives the object
  at each address. A Python name always refers to an object, hence the heap is total;
  an address that no constructor call has used yet holds an unattached object.

  Exceptions are values of \<open>error\<close>. A \<^verbatim>\<open>while\<close> loop or a recursion that does not
  come back within the given budget of steps is \<open>Diverges\<close>.
\<close>

datatype error = AttributeError | NameError | AssertionError | NotFinite | SystemExit | Diverges

type_synonym ref = nat

text \<open>The attribute \<^verbatim>\<open>_data\<close>: removed by \<^verbatim>\<open>del\<close>, \<^verbatim>\<open>None\<close>, or a payload.\<close>

datatype 'd attr = Deleted | Unset | Payload 'd

record 'd base =
  ident :: string
  argv :: "string list"
  gui :: bool
  batch :: bool
  silent :: bool
  ready :: bool
  preDone :: bool
  taskDone :: bool
  postDone :: bool
  leader :: "ref option"
  followers :: "ref option list"
  data :: "'d attr"

type_synonym ('d, 'z) heap = "ref \<Rightarrow> ('d, 'z) base_scheme"

text \<open>
  What the methods read from outside the objects: whether the modules \<^verbatim>\<open>parallel\<close>
  and \<^verbatim>\<open>tkinter\<close> are in \<^verbatim>\<open>sys.modules\<close>, what \<^verbatim>\<open>parallel.rank()\<close> returns,
  the truth value of a payload, and what the \<^verbatim>\<open>load\<close> and \<^verbatim>\<open>save\<close> methods of each
  object return (\<^verbatim>\<open>Base.load\<close> and \<^verbatim>\<open>Base.save\<close> return \<^verbatim>\<open>True\<close>; a derived class
  overrides them).
\<close>

record 'd env =
  parallel_loaded :: bool
  rank :: "nat option"
  tkinter_loaded :: bool
  truthy :: "'d \<Rightarrow> bool"
  load :: "ref \<Rightarrow> bool"
  save :: "ref \<Rightarrow> bool"

definition and_then :: "error + 'a \<Rightarrow> ('a \<Rightarrow> error + 'b) \<Rightarrow> error + 'b" where
  "and_then r f = (case r of Inl e \<Rightarrow> Inl e | Inr x \<Rightarrow> f x)"

text \<open>A \<^verbatim>\<open>for\<close> loop over a list whose body may raise.\<close>

fun for_each :: "'a list \<Rightarrow> ('a \<Rightarrow> 's \<Rightarrow> error + 's) \<Rightarrow> 's \<Rightarrow> error + 's" where
  "for_each [] f s = Inr s"
| "for_each (x # xs) f s = (case f x s of Inl e \<Rightarrow> Inl e | Inr s' \<Rightarrow> for_each xs f s')"

text \<open>\<^verbatim>\<open>Base.__init__\<close>: an empty identifier is replaced by the class name.\<close>

definition init :: "string \<Rightarrow> string list \<Rightarrow> 'd base" where
  "init idt av =
     \<lparr>ident = (if idt = [] then ''Base'' else idt), argv = av,
      gui = False, batch = False, silent = False, ready = True,
      preDone = False, taskDone = False, postDone = False,
      leader = None, followers = [], data = Unset\<rparr>"

text \<open>\<^verbatim>\<open>'parallel' in sys.modules and parallel.rank()\<close>: rank \<^verbatim>\<open>None\<close> and rank 0 are false.\<close>

definition nonprimary :: "'d env \<Rightarrow> bool" where
  "nonprimary env =
     (parallel_loaded env \<and> (case rank env of None \<Rightarrow> False | Some r \<Rightarrow> r \<noteq> 0))"

section \<open>Relationships\<close>

definition isRoot :: "('d, 'z) heap \<Rightarrow> ref \<Rightarrow> bool" where
  "isRoot h self = (leader (h self) = None)"

text \<open>\<^verbatim>\<open>root\<close>: \<^verbatim>\<open>p = self; while p.leader: p = p.leader\<close>.\<close>

fun root :: "nat \<Rightarrow> ('d, 'z) heap \<Rightarrow> ref \<Rightarrow> error + ref" where
  "root 0 h p = Inl Diverges"
| "root (Suc k) h p = (case leader (h p) of None \<Rightarrow> Inr p | Some l \<Rightarrow> root k h l)"

text \<open>\<^verbatim>\<open>treeLevel\<close>: \<^verbatim>\<open>n = 0; p = self.leader; while p: p = p.leader; n += 1\<close>.\<close>

fun treeLevel_loop :: "nat \<Rightarrow> ('d, 'z) heap \<Rightarrow> ref option \<Rightarrow> nat \<Rightarrow> error + nat" where
  "treeLevel_loop 0 h p n = Inl Diverges"
| "treeLevel_loop (Suc k) h None n = Inr n"
| "treeLevel_loop (Suc k) h (Some q) n = treeLevel_loop k h (leader (h q)) (n + 1)"

definition treeLevel :: "nat \<Rightarrow> ('d, 'z) heap \<Rightarrow> ref \<Rightarrow> error + nat" where
  "treeLevel k h self = treeLevel_loop k h (leader (h self)) 0"

text \<open>
  \<^verbatim>\<open>write\<close> prints a line (unless silent) and logs it, indented by \<^verbatim>\<open>treeLevel\<close>.
  The console and the log file are not part of the state; what remains of it (\<open>write_msg\<close>)
  is that computing the indentation has to come back.
\<close>

definition write_msg :: "nat \<Rightarrow> ('d, 'z) heap \<Rightarrow> ref \<Rightarrow> error + ('d, 'z) heap" where
  "write_msg k h self = and_then (treeLevel k h self) (\<lambda>_. Inr h)"

text \<open>\<^verbatim>\<open>setFollower\<close> with one node: set its leader, append it unless it is in the list.\<close>

definition setFollower :: "('d, 'z) heap \<Rightarrow> ref \<Rightarrow> ref \<Rightarrow> ('d, 'z) heap" where
  "setFollower h self other =
     (let h1 = h(other := (h other)\<lparr>leader := Some self\<rparr>)
      in if Some other \<in> set (followers (h1 self)) then h1
         else h1(self := (h1 self)\<lparr>followers := followers (h1 self) @ [Some other]\<rparr>))"

text \<open>\<^verbatim>\<open>setFollower\<close> with a list or tuple of nodes.\<close>

definition setFollowers :: "('d, 'z) heap \<Rightarrow> ref \<Rightarrow> ref list \<Rightarrow> ('d, 'z) heap" where
  "setFollowers h self others = foldl (\<lambda>h' obj. setFollower h' self obj) h others"

definition isFollower :: "('d, 'z) heap \<Rightarrow> ref \<Rightarrow> ref \<Rightarrow> bool" where
  "isFollower h self other =
     (leader (h other) = Some self \<and> Some other \<in> set (followers (h self)))"

definition setCooperator :: "('d, 'z) heap \<Rightarrow> ref \<Rightarrow> ref \<Rightarrow> ('d, 'z) heap" where
  "setCooperator h self other =
     (if Some other \<in> set (followers (h self)) then h
      else h(self := (h self)\<lparr>followers := followers (h self) @ [Some other]\<rparr>))"

definition setCooperators :: "('d, 'z) heap \<Rightarrow> ref \<Rightarrow> ref list \<Rightarrow> ('d, 'z) heap" where
  "setCooperators h self others = foldl (\<lambda>h' obj. setCooperator h' self obj) h others"

definition isCooperator :: "('d, 'z) heap \<Rightarrow> ref \<Rightarrow> ref \<Rightarrow> bool" where
  "isCooperator h self other =
     (leader (h other) \<noteq> Some self \<and> Some other \<in> set (followers (h self)))"

section \<open>Execution-mode flags\<close>

text \<open>
  The setters of \<^verbatim>\<open>gui\<close> and \<^verbatim>\<open>batch\<close> store the value in the node and in each entry
  of its follower list; an entry \<^verbatim>\<open>None\<close> has no such attribute. The setter of
  \<^verbatim>\<open>silent\<close> stores the value in the node. The getter of \<^verbatim>\<open>silent\<close> also consults
  the rank.
\<close>

definition gui_setter ::
  "'d env \<Rightarrow> ('d, 'z) heap \<Rightarrow> ref \<Rightarrow> bool \<Rightarrow> error + ('d, 'z) heap" where
  "gui_setter env h self val =
     (let v = (if tkinter_loaded env then val else False);
          h1 = h(self := (h self)\<lparr>gui := v\<rparr>)
      in for_each (followers (h1 self))
           (\<lambda>x h'. case x of None \<Rightarrow> Inl AttributeError
                    | Some y \<Rightarrow> Inr (h'(y := (h' y)\<lparr>gui := v\<rparr>))) h1)"

definition batch_setter :: "('d, 'z) heap \<Rightarrow> ref \<Rightarrow> bool \<Rightarrow> error + ('d, 'z) heap" where
  "batch_setter h self val =
     (let h1 = h(self := (h self)\<lparr>batch := val\<rparr>)
      in for_each (followers (h1 self))
           (\<lambda>x h'. case x of None \<Rightarrow> Inl AttributeError
                    | Some y \<Rightarrow> Inr (h'(y := (h' y)\<lparr>batch := val\<rparr>))) h1)"

definition silent_setter :: "('d, 'z) heap \<Rightarrow> ref \<Rightarrow> bool \<Rightarrow> ('d, 'z) heap" where
  "silent_setter h self val = h(self := (h self)\<lparr>silent := val\<rparr>)"

definition silent_getter :: "'d env \<Rightarrow> ('d, 'z) heap \<Rightarrow> ref \<Rightarrow> bool" where
  "silent_getter env h self = (silent (h self) \<or> nonprimary env)"

section \<open>Destruction\<close>

text \<open>The \<^verbatim>\<open>enumerate\<close> loop of \<^verbatim>\<open>_destructFollower\<close>: the first index holding the node.\<close>

fun index_of :: "'a \<Rightarrow> 'a list \<Rightarrow> nat option" where
  "index_of x [] = None"
| "index_of x (y # ys) = (if y = x then Some 0 else map_option Suc (index_of x ys))"

text \<open>
  \<^verbatim>\<open>_destructFollower\<close>: gives up when the node is not in the list or is a cooperator;
  otherwise deletes the attribute \<^verbatim>\<open>_data\<close> of the node (which raises when the
  attribute is gone already) and writes \<^verbatim>\<open>None\<close> into the slot.
\<close>

definition destructFollower ::
  "('d, 'z) heap \<Rightarrow> ref \<Rightarrow> ref \<Rightarrow> error + (bool \<times> ('d, 'z) heap)" where
  "destructFollower h self node =
     (case index_of (Some node) (followers (h self)) of
        None \<Rightarrow> Inr (False, h)
      | Some i \<Rightarrow>
          if isCooperator h self node then Inr (False, h)
          else if data (h node) = Deleted then Inl AttributeError
          else let h1 = h(node := (h node)\<lparr>data := Deleted\<rparr>)
               in Inr (True, h1(self := (h1 self)\<lparr>followers := (followers (h1 self))[i := None]\<rparr>)))"

text \<open>
  \<^verbatim>\<open>destructDownwards\<close>: the loop runs over the indices of the follower list as long
  as it was at entry and reads the list afresh at each index; it descends into the
  entries whose leader is \<^verbatim>\<open>fromNode\<close>. Then the leader of \<^verbatim>\<open>fromNode\<close>, if any,
  removes it.
\<close>

fun destructDownwards :: "nat \<Rightarrow> ('d, 'z) heap \<Rightarrow> ref \<Rightarrow> error + ('d, 'z) heap" where
  "destructDownwards 0 h fromNode = Inl Diverges"
| "destructDownwards (Suc k) h fromNode =
     and_then
       (for_each [0..<length (followers (h fromNode))]
          (\<lambda>i h'. case followers (h' fromNode) ! i of
                     None \<Rightarrow> Inr h'
                   | Some node \<Rightarrow>
                       if leader (h' node) = Some fromNode then destructDownwards k h' node
                       else Inr h') h)
       (\<lambda>h1. case leader (h1 fromNode) of
                None \<Rightarrow> Inr h1
              | Some l \<Rightarrow> and_then (destructFollower h1 l fromNode) (\<lambda>(_, h2). Inr h2))"

text \<open>
  \<^verbatim>\<open>destruct\<close>: deletes the node's own \<^verbatim>\<open>_data\<close> when it is true, then destructs
  downwards from the node. (Shutting down the logging of a root is outside the state.)
\<close>

definition destruct ::
  "nat \<Rightarrow> 'd env \<Rightarrow> ('d, 'z) heap \<Rightarrow> ref \<Rightarrow> error + (bool \<times> ('d, 'z) heap)" where
  "destruct k env h self =
     and_then
       (case data (h self) of
          Deleted \<Rightarrow> Inl AttributeError
        | Unset \<Rightarrow> Inr h
        | Payload d \<Rightarrow>
            if truthy env d then Inr (h(self := (h self)\<lparr>data := Deleted\<rparr>)) else Inr h)
       (\<lambda>h1. and_then (destructDownwards k h1 self) (\<lambda>h2. Inr (True, h2)))"

section \<open>Search by identifier\<close>

text \<open>A loop that returns the first result that is not \<^verbatim>\<open>None\<close>.\<close>

fun first_some :: "'a list \<Rightarrow> ('a \<Rightarrow> error + 'b option) \<Rightarrow> error + 'b option" where
  "first_some [] f = Inr None"
| "first_some (x # xs) f =
     (case f x of Inl e \<Rightarrow> Inl e | Inr (Some y) \<Rightarrow> Inr (Some y) | Inr None \<Rightarrow> first_some xs f)"

text \<open>
  \<^verbatim>\<open>getFollowerDownwards\<close>: the node the method is called on is tested first, at every
  level of the recursion; without a start node the search starts at the root.
\<close>

fun getFollowerDownwards ::
  "nat \<Rightarrow> ('d, 'z) heap \<Rightarrow> ref \<Rightarrow> string \<Rightarrow> ref option \<Rightarrow> error + ref option" where
  "getFollowerDownwards 0 h self idt fromNode = Inl Diverges"
| "getFollowerDownwards (Suc k) h self idt fromNode =
     (if ident (h self) = idt then Inr (Some self)
      else and_then (case fromNode of Some f \<Rightarrow> Inr f | None \<Rightarrow> root (Suc k) h self)
        (\<lambda>f. if ident (h f) = idt then Inr (Some f)
              else first_some (followers (h f))
                     (\<lambda>x. case x of None \<Rightarrow> Inr None
                               | Some node \<Rightarrow> getFollowerDownwards k h self idt (Some node))))"

definition getFollower ::
  "nat \<Rightarrow> ('d, 'z) heap \<Rightarrow> ref \<Rightarrow> string \<Rightarrow> error + ref option" where
  "getFollower k h self idt = getFollowerDownwards k h self idt None"

section \<open>The phases\<close>

text \<open>
  \<^verbatim>\<open>pre\<close>, \<^verbatim>\<open>task\<close> and \<^verbatim>\<open>post\<close> call themselves on each entry of the follower list
  (an entry \<^verbatim>\<open>None\<close> has no such method), discard what the entry returns, write a line
  for a cooperator, and write a line when the root has followers. \<^verbatim>\<open>pre\<close> then calls
  \<^verbatim>\<open>load\<close> if the data is \<^verbatim>\<open>None\<close>, \<^verbatim>\<open>post\<close> calls \<^verbatim>\<open>save\<close> likewise.
\<close>

fun pre ::
  "nat \<Rightarrow> 'd env \<Rightarrow> ref \<Rightarrow> ('d, 'z) heap \<Rightarrow> error + (bool \<times> ('d, 'z) heap)" where
  "pre 0 env self h = Inl Diverges"
| "pre (Suc k) env self h =
     and_then
       (for_each (followers (h self))
          (\<lambda>x h'. case x of
                     None \<Rightarrow> Inl AttributeError
                   | Some y \<Rightarrow>
                       and_then (pre k env y h')
                         (\<lambda>(_, h1). if isCooperator h1 self y then write_msg (Suc k) h1 self
                                     else Inr h1)) h)
       (\<lambda>h1. and_then (root (Suc k) h1 self)
          (\<lambda>r. and_then (if followers (h1 r) \<noteq> [] then write_msg (Suc k) h1 self else Inr h1)
             (\<lambda>h2. case data (h2 self) of
                      Deleted \<Rightarrow> Inl AttributeError
                    | Unset \<Rightarrow> Inr (load env self, h2(self := (h2 self)\<lparr>preDone := True\<rparr>))
                    | Payload d \<Rightarrow> Inr (True, h2(self := (h2 self)\<lparr>preDone := True\<rparr>)))))"

fun task ::
  "nat \<Rightarrow> 'd env \<Rightarrow> ref \<Rightarrow> ('d, 'z) heap \<Rightarrow> error + (real \<times> ('d, 'z) heap)" where
  "task 0 env self h = Inl Diverges"
| "task (Suc k) env self h =
     and_then
       (for_each (followers (h self))
          (\<lambda>x h'. case x of
                     None \<Rightarrow> Inl AttributeError
                   | Some y \<Rightarrow>
                       and_then (task k env y h')
                         (\<lambda>(_, h1). if isCooperator h1 self y then write_msg (Suc k) h1 self
                                     else Inr h1)) h)
       (\<lambda>h1. and_then (root (Suc k) h1 self)
          (\<lambda>r. and_then (if followers (h1 r) \<noteq> [] then write_msg (Suc k) h1 self else Inr h1)
             (\<lambda>h2. Inr (0, h2(self := (h2 self)\<lparr>taskDone := True\<rparr>)))))"

fun post ::
  "nat \<Rightarrow> 'd env \<Rightarrow> ref \<Rightarrow> ('d, 'z) heap \<Rightarrow> error + (bool \<times> ('d, 'z) heap)" where
  "post 0 env self h = Inl Diverges"
| "post (Suc k) env self h =
     and_then
       (for_each (followers (h self))
          (\<lambda>x h'. case x of
                     None \<Rightarrow> Inl AttributeError
                   | Some y \<Rightarrow>
                       and_then (post k env y h')
                         (\<lambda>(_, h1). if isCooperator h1 self y then write_msg (Suc k) h1 self
                                     else Inr h1)) h)
       (\<lambda>h1. and_then (root (Suc k) h1 self)
          (\<lambda>r. and_then (if followers (h1 r) \<noteq> [] then write_msg (Suc k) h1 self else Inr h1)
             (\<lambda>h2. case data (h2 self) of
                      Deleted \<Rightarrow> Inl AttributeError
                    | Unset \<Rightarrow> Inr (save env self, h2(self := (h2 self)\<lparr>postDone := True\<rparr>))
                    | Payload d \<Rightarrow> Inr (True, h2(self := (h2 self)\<lparr>postDone := True\<rparr>)))))"

text \<open>
  \<^verbatim>\<open>Base.control\<close> calls the \<^verbatim>\<open>task\<close> method of the object once; the method is a
  parameter, since a derived class overrides it. The lines with the execution time,
  which a root writes when the wall clock says so, are not in the model.
\<close>

definition control ::
  "(ref \<Rightarrow> ('d, 'z) heap \<Rightarrow> error + (real \<times> ('d, 'z) heap)) \<Rightarrow> nat \<Rightarrow> ('d, 'z) heap \<Rightarrow> ref
     \<Rightarrow> error + (real \<times> ('d, 'z) heap)" where
  "control tk k h self =
     and_then (if isRoot h self then write_msg k h self else Inr h)
       (\<lambda>h1. and_then (tk self h1)
          (\<lambda>(res, h2). and_then (write_msg k h2 self) (\<lambda>h3. Inr (res, h3))))"

text \<open>
  \<^verbatim>\<open>prolog\<close>: leaves the program on \<^verbatim>\<open>-h\<close>; sets \<^verbatim>\<open>gui\<close> and \<^verbatim>\<open>silent\<close> from
  the arguments when there are any; a root writes the banner.
\<close>

definition prolog ::
  "nat \<Rightarrow> 'd env \<Rightarrow> ('d, 'z) heap \<Rightarrow> ref \<Rightarrow> error + ('d, 'z) heap" where
  "prolog k env h self =
     (let av = argv (h self) in
      if ''-h'' \<in> set av \<or> ''--help'' \<in> set av then Inl SystemExit
      else and_then
             (if length av > 1 then
                and_then (gui_setter env h self (''-g'' \<in> set av \<or> ''--gui'' \<in> set av))
                  (\<lambda>h1. Inr (silent_setter h1 self (''-s'' \<in> set av \<or> ''--silent'' \<in> set av)))
              else Inr h)
             (\<lambda>h2. if isRoot h2 self then write_msg k h2 self else Inr h2))"

text \<open>
  \<^verbatim>\<open>epilog\<close>: a root writes the closing lines; then the followers' epilogs run, and in
  \<^verbatim>\<open>gui\<close> mode a message box shows \<^verbatim>\<open>message\<close>, a name that only a root has bound.
\<close>

fun epilog :: "nat \<Rightarrow> 'd env \<Rightarrow> ('d, 'z) heap \<Rightarrow> ref \<Rightarrow> error + ('d, 'z) heap" where
  "epilog 0 env h self = Inl Diverges"
| "epilog (Suc k) env h self =
     and_then (if isRoot h self then write_msg (Suc k) h self else Inr h)
       (\<lambda>h1. for_each (followers (h1 self))
          (\<lambda>x h'. case x of
                     None \<Rightarrow> Inl AttributeError
                   | Some y \<Rightarrow>
                       and_then (epilog k env h' y)
                         (\<lambda>h2. if gui (h2 self) \<and> \<not> isRoot h2 self then Inl NameError
                                else Inr h2)) h1)"

text \<open>
  \<^verbatim>\<open>__call__\<close>. Of the keyword arguments only \<^verbatim>\<open>silent\<close> is read, so they are the
  optional value of that key.
\<close>

definition call ::
  "nat \<Rightarrow> 'd env \<Rightarrow> bool option \<Rightarrow> ('d, 'z) heap \<Rightarrow> ref \<Rightarrow> error + (real \<times> ('d, 'z) heap)" where
  "call k env kwargs h self =
     (if nonprimary env then Inr (- 1, h)
      else
        let h1 = silent_setter h self
                   (case kwargs of None \<Rightarrow> silent_getter env h self | Some v \<Rightarrow> v)
        in and_then (prolog k env h1 self)
             (\<lambda>h2. and_then (pre k env self h2)
                (\<lambda>(_, h3). and_then (control (task k env) k h3 self)
                   (\<lambda>(res, h4). and_then (post k env self h4)
                      (\<lambda>(_, h5). and_then (epilog k env h5 self)
                         (\<lambda>h6. Inr (res, h6)))))))"

section \<open>Loop: nonlinear iteration and time stepping\<close>

text \<open>
  \<^verbatim>\<open>class Loop(Base)\<close> of \<^verbatim>\<open>grayboxes/loop.py\<close> adds the settings of the iteration and
  of the time stepping. Floating-point numbers are real numbers here, and \<^verbatim>\<open>np.inf\<close>,
  the residuum before the first call of \<^verbatim>\<open>task\<close>, is a value of its own.
\<close>

record 'd loop = "'d base" +
  it :: int
  n_it_min :: int
  n_it_max :: int
  epsilon :: real
  omega :: real
  t :: real
  t_begin :: real
  tEnd :: real
  dt :: real
  theta :: real

type_synonym ('d, 'z) lheap = "ref \<Rightarrow> ('d, 'z) loop_scheme"

datatype residuum = Inf | Res real

text \<open>\<^verbatim>\<open>np.clip(x, lo, hi)\<close> is \<^verbatim>\<open>minimum(maximum(x, lo), hi)\<close>.\<close>

definition clip :: "'a::linorder \<Rightarrow> 'a \<Rightarrow> 'a \<Rightarrow> 'a" where
  "clip x lo hi = min (max x lo) hi"

definition is_nonlinear :: "('d, 'z) lheap \<Rightarrow> ref \<Rightarrow> bool" where
  "is_nonlinear h self = (n_it_max (h self) > 0)"

definition is_transient :: "('d, 'z) lheap \<Rightarrow> ref \<Rightarrow> bool" where
  "is_transient h self = (tEnd (h self) > 0)"

text \<open>\<^verbatim>\<open>set_nonlinear\<close>; the argument \<^verbatim>\<open>n_it_max\<close> may be \<^verbatim>\<open>None\<close>.\<close>

definition set_nonlinear ::
  "('d, 'z) lheap \<Rightarrow> ref \<Rightarrow> int \<Rightarrow> int option \<Rightarrow> real \<Rightarrow> real \<Rightarrow> ('d, 'z) lheap" where
  "set_nonlinear h self n_it_min' n_it_max' epsilon' omega' =
     (let h1 = h(self := (h self)\<lparr>n_it_max :=
                   clip (case n_it_max' of None \<Rightarrow> 0 | Some m \<Rightarrow> m) 0 (10 ^ 6)\<rparr>)
      in case n_it_max' of
           None \<Rightarrow> h1
         | Some m \<Rightarrow>
             if n_it_max (h1 self) > 0 then
               h1(self := (h1 self)\<lparr>n_it_min := clip n_it_min' 0 m,
                                     epsilon := clip epsilon' 0 1,
                                     omega := clip omega' 0 2\<rparr>)
             else h1)"

text \<open>
  \<^verbatim>\<open>set_transient\<close>. The assertion on \<^verbatim>\<open>n\<close> is under the test of \<^verbatim>\<open>dt\<close>; the
  assignment \<^verbatim>\<open>dt = (self.tEnd - t_begin) / n\<close> is not. A division by \<^verbatim>\<open>n = 0\<close> gives
  no finite number.
\<close>

definition set_transient ::
  "('d, 'z) lheap \<Rightarrow> ref \<Rightarrow> real \<Rightarrow> real option \<Rightarrow> real \<Rightarrow> real \<Rightarrow> int
     \<Rightarrow> error + ('d, 'z) lheap" where
  "set_transient h self t_begin' t_end' dt' theta' n =
     (let h1 = h(self := (h self)\<lparr>tEnd :=
                   clip (case t_end' of None \<Rightarrow> 0 | Some e \<Rightarrow> e) 0 (10 ^ 6)\<rparr>)
      in case t_end' of
           None \<Rightarrow> Inr h1
         | Some e \<Rightarrow>
             if tEnd (h1 self) > 0 then
               if dt' < 1 / 10 ^ 20 \<and> \<not> n > 0 then Inl AssertionError
               else if n = 0 then Inl NotFinite
               else Inr (h1(self := (h1 self)\<lparr>t_begin := clip t_begin' 0 e,
                                               dt := (tEnd (h1 self) - t_begin') / of_int n,
                                               theta := clip theta' 0 1\<rparr>))
             else Inr h1)"

fun initial_condition :: "nat \<Rightarrow> ('d, 'z) lheap \<Rightarrow> ref \<Rightarrow> error + ('d, 'z) lheap" where
  "initial_condition 0 h self = Inl Diverges"
| "initial_condition (Suc k) h self =
     for_each (followers (h self))
       (\<lambda>x h'. case x of None \<Rightarrow> Inl AttributeError
                | Some y \<Rightarrow> initial_condition k h' y) h"

fun update_nonlinear :: "nat \<Rightarrow> ('d, 'z) lheap \<Rightarrow> ref \<Rightarrow> error + ('d, 'z) lheap" where
  "update_nonlinear 0 h self = Inl Diverges"
| "update_nonlinear (Suc k) h self =
     for_each (followers (h self))
       (\<lambda>x h'. case x of None \<Rightarrow> Inl AttributeError
                | Some y \<Rightarrow> update_nonlinear k h' y) h"

fun update_transient :: "nat \<Rightarrow> ('d, 'z) lheap \<Rightarrow> ref \<Rightarrow> error + ('d, 'z) lheap" where
  "update_transient 0 h self = Inl Diverges"
| "update_transient (Suc k) h self =
     and_then
       (for_each (followers (h self))
          (\<lambda>x h'. case x of None \<Rightarrow> Inl AttributeError
                   | Some y \<Rightarrow> update_transient k h' y) h)
       (\<lambda>h1. and_then (root (Suc k) h1 self)
          (\<lambda>r. Inr (h1(self := (h1 self)\<lparr>t := t (h1 r), dt := dt (h1 r),
                                            theta := theta (h1 r)\<rparr>))))"

text \<open>
  The local function \<^verbatim>\<open>_nonlinear_iteration\<close> of \<^verbatim>\<open>Loop.control\<close>: the body of its
  \<^verbatim>\<open>while\<close> loop, and the loop entered with \<^verbatim>\<open>it = -1\<close> and the residuum \<^verbatim>\<open>np.inf\<close>.
  The \<^verbatim>\<open>task\<close> method is a parameter. The loops have a budget \<open>k\<close> of passes; the
  methods called in the body have the budget \<open>d\<close>.
\<close>

fun nonlinear_loop ::
  "nat \<Rightarrow> nat \<Rightarrow> (ref \<Rightarrow> ('d, 'z) lheap \<Rightarrow> error + (real \<times> ('d, 'z) lheap)) \<Rightarrow> ref
     \<Rightarrow> residuum \<Rightarrow> ('d, 'z) lheap \<Rightarrow> error + (residuum \<times> ('d, 'z) lheap)" where
  "nonlinear_loop 0 d tk self res h = Inl Diverges"
| "nonlinear_loop (Suc k) d tk self res h =
     (if it (h self) < n_it_max (h self) then
        and_then (write_msg d (h(self := (h self)\<lparr>it := it (h self) + 1\<rparr>)) self)
          (\<lambda>h1. and_then (update_nonlinear d h1 self)
             (\<lambda>h2. and_then (tk self h2)
                (\<lambda>(r, h3). if r \<le> epsilon (h3 self) \<and> it (h3 self) \<ge> n_it_min (h3 self)
                             then Inr (Res r, h3)
                             else nonlinear_loop k d tk self (Res r) h3)))
      else Inr (res, h))"

definition nonlinear_iteration ::
  "nat \<Rightarrow> nat \<Rightarrow> (ref \<Rightarrow> ('d, 'z) lheap \<Rightarrow> error + (real \<times> ('d, 'z) lheap)) \<Rightarrow> ref
     \<Rightarrow> ('d, 'z) lheap \<Rightarrow> error + (residuum \<times> ('d, 'z) lheap)" where
  "nonlinear_iteration k d tk self h =
     nonlinear_loop k d tk self Inf (h(self := (h self)\<lparr>it := - 1\<rparr>))"

text \<open>The \<^verbatim>\<open>while\<close> loop over the physical time.\<close>

fun transient_loop ::
  "nat \<Rightarrow> nat \<Rightarrow> (ref \<Rightarrow> ('d, 'z) lheap \<Rightarrow> error + (real \<times> ('d, 'z) lheap)) \<Rightarrow> ref
     \<Rightarrow> residuum \<Rightarrow> ('d, 'z) lheap \<Rightarrow> error + (residuum \<times> ('d, 'z) lheap)" where
  "transient_loop 0 d tk self res h = Inl Diverges"
| "transient_loop (Suc k) d tk self res h =
     (if t (h self) + 1 / 10 ^ 10 < tEnd (h self) then
        and_then (write_msg d (h(self := (h self)\<lparr>t := t (h self) + dt (h self)\<rparr>)) self)
          (\<lambda>h1. and_then (update_transient d h1 self)
             (\<lambda>h2. and_then
                      (if is_nonlinear h2 self then nonlinear_iteration (Suc k) d tk self h2
                       else and_then (tk self h2) (\<lambda>(r, h3). Inr (Res r, h3)))
                (\<lambda>(res', h3). transient_loop k d tk self res' h3)))
      else Inr (res, h))"

text \<open>
  \<^verbatim>\<open>Loop.control\<close> tests \<^verbatim>\<open>self.is_root()\<close> when it is in nonlinear or transient
  mode. Neither \<^verbatim>\<open>Loop\<close> nor \<^verbatim>\<open>Base\<close> has an attribute of that name (\<^verbatim>\<open>Base\<close>
  defines \<^verbatim>\<open>isRoot\<close>) and there is no \<^verbatim>\<open>__getattr__\<close>, so looking the name up
  raises \<^verbatim>\<open>AttributeError\<close>.
\<close>

definition is_root :: "('d, 'z) lheap \<Rightarrow> ref \<Rightarrow> error + bool" where
  "is_root h self = Inl AttributeError"

text \<open>
  \<^verbatim>\<open>Loop.control\<close>. Steady and linear, it is the \<^verbatim>\<open>control\<close> of the base class.
  Otherwise it tests \<^verbatim>\<open>self.is_root()\<close>; under the test it reads
  \<^verbatim>\<open>self._exe_time_start\<close>, which is not an attribute of the object either (\<^verbatim>\<open>Base\<close>
  sets \<^verbatim>\<open>_execTimeStart\<close>); it writes a line, calls \<^verbatim>\<open>initial_condition\<close>, runs the
  iteration or the time loop, tests \<^verbatim>\<open>self.is_root()\<close> again and writes a line.
\<close>

definition loop_control ::
  "(ref \<Rightarrow> ('d, 'z) lheap \<Rightarrow> error + (real \<times> ('d, 'z) lheap)) \<Rightarrow> nat \<Rightarrow> nat
     \<Rightarrow> ('d, 'z) lheap \<Rightarrow> ref \<Rightarrow> error + (residuum \<times> ('d, 'z) lheap)" where
  "loop_control tk k d h self =
     (if \<not> is_transient h self \<and> \<not> is_nonlinear h self then
        and_then (control tk d h self) (\<lambda>(r, h'). Inr (Res r, h'))
      else
        and_then (is_root h self)
          (\<lambda>r. and_then (if r then Inl AttributeError else Inr h)
             (\<lambda>h0. and_then (write_msg d h0 self)
                (\<lambda>h1. and_then (initial_condition d h1 self)
                   (\<lambda>h2. and_then
                            (if \<not> is_transient h2 self then nonlinear_iteration k d tk self h2
                             else transient_loop k d tk self Inf (h2(self := (h2 self)\<lparr>t := 0\<rparr>)))
                      (\<lambda>(res, h3). and_then (is_root h3 self)
                         (\<lambda>r'. and_then (if r' then Inl AttributeError else Inr h3)
                            (\<lambda>h4. and_then (write_msg d h4 self)
                               (\<lambda>h5. Inr (res, h5))))))))))"

text \<open>
  \<^verbatim>\<open>Loop.__init__\<close>, and two \<^verbatim>\<open>task\<close> methods of derived classes, whose state is the
  extension of the record: one returns the residuals of a given sequence, call after
  call, and counts its calls; one notes the time \<^verbatim>\<open>self.t\<close> of each call and returns 0.
\<close>

definition loop_init :: "string \<Rightarrow> string list \<Rightarrow> 'z \<Rightarrow> ('d, 'z) loop_scheme" where
  "loop_init idt av z =
     \<lparr>ident = (if idt = [] then ''Loop'' else idt), argv = av,
      gui = False, batch = False, silent = False, ready = True,
      preDone = False, taskDone = False, postDone = False,
      leader = None, followers = [], data = Unset,
      it = 0, n_it_min = 0, n_it_max = 0, epsilon = 0, omega = 1,
      t = 0, t_begin = 0, tEnd = 0, dt = 1 / 100, theta = 1 / 2, \<dots> = z\<rparr>"

definition sequence_task ::
  "(nat \<Rightarrow> real) \<Rightarrow> ref \<Rightarrow> ('d, nat) lheap \<Rightarrow> error + (real \<times> ('d, nat) lheap)" where
  "sequence_task rs self h =
     Inr (rs (loop.more (h self)), h(self := (h self)\<lparr>loop.more := Suc (loop.more (h self))\<rparr>))"

definition timing_task ::
  "ref \<Rightarrow> ('d, real list) lheap \<Rightarrow> error + (real \<times> ('d, real list) lheap)" where
  "timing_task self h =
     Inr (0, h(self := (h self)\<lparr>loop.more := loop.more (h self) @ [t (h self)]\<rparr>))"

text \<open>The residuals \<open>1.0, 0.5, 0.1, 0.005, 0.001, ...\<close>.\<close>

definition residuals :: "nat \<Rightarrow> real" where
  "residuals i = (if i < 4 then [1, 1 / 2, 1 / 10, 5 / 1000] ! i else 1 / 1000)"

definition counting_loops :: "(unit, nat) lheap" where
  "counting_loops = (\<lambda>r. loop_init ''Loop'' [''prog''] 0)"

definition timing_loops :: "(unit, real list) lheap" where
  "timing_loops = (\<lambda>r. loop_init ''Loop'' [''prog''] [])"

section \<open>Trees built by attaching, and concrete heaps\<close>

text \<open>
  The integrity of the links: a node with a leader is in the follower list of that leader.
  \<open>built\<close> holds for the heaps that \<^verbatim>\<open>setFollower\<close> and \<^verbatim>\<open>setCooperator\<close> make from
  unattached objects.
\<close>

definition integrity :: "('d, 'z) heap \<Rightarrow> bool" where
  "integrity h = (\<forall>n l. leader (h n) = Some l \<longrightarrow> Some n \<in> set (followers (h l)))"

inductive built :: "('d, 'z) heap \<Rightarrow> bool" where
  fresh: "\<forall>r. leader (h r) = None \<and> followers (h r) = [] \<Longrightarrow> built h"
| attach_follower: "built h \<Longrightarrow> built (setFollower h L F)"
| attach_cooperator: "built h \<Longrightarrow> built (setCooperator h L C)"

text \<open>
  Objects as \<^verbatim>\<open>Base()\<close> makes them, and three environments: one without a rank; one
  with rank 1 in which \<^verbatim>\<open>sys.modules\<close> has the key \<^verbatim>\<open>parallel\<close>, as after the
  fallback \<^verbatim>\<open>import parallel as parallel\<close>; and one with rank 1 in which it has not, as
  after \<^verbatim>\<open>import grayboxes.parallel as parallel\<close>, the first import that \<^verbatim>\<open>base.py\<close>
  tries, which registers the module under the key \<^verbatim>\<open>grayboxes.parallel\<close>.
\<close>

definition new_heap :: "(unit, unit) heap" where
  "new_heap = (\<lambda>r. init ''Base'' [''prog''])"

definition env0 :: "unit env" where
  "env0 = \<lparr>parallel_loaded = False, rank = None, tkinter_loaded = True,
           truthy = (\<lambda>_. True), load = (\<lambda>_. True), save = (\<lambda>_. True)\<rparr>"

definition env_rank1 :: "unit env" where
  "env_rank1 = env0\<lparr>parallel_loaded := True, rank := Some 1\<rparr>"

definition env_package_rank1 :: "unit env" where
  "env_package_rank1 = env0\<lparr>parallel_loaded := False, rank := Some 1\<rparr>"

text \<open>
  The heap after \<^verbatim>\<open>L = Base(); F = Base(); L.setFollower(F); F.destruct()\<close>, with
  \<open>L\<close> at address 0 and \<open>F\<close> at address 1.
\<close>

definition holed_heap :: "(unit, unit) heap" where
  "holed_heap = snd (projr (destruct 2 env0 (setFollower new_heap 0 1) 1))"



text \<open>
  The loop of the nonlinear example: \<^verbatim>\<open>set_nonlinear(n_it_min=2, n_it_max=10, epsilon=0.01)\<close>;
  and the loop after \<^verbatim>\<open>set_transient(t_begin=0, t_end=1.0, dt=0.25)\<close>.
\<close>

definition nonlinear_loops :: "(unit, nat) lheap" where
  "nonlinear_loops = set_nonlinear counting_loops 0 2 (Some 10) (1 / 100) 1"

definition configured :: "(unit, real list) lheap" where
  "configured = projr (set_transient timing_loops 0 0 (Some 1) (1 / 4) (1 / 2) 100)"

text \<open>
  The nodes below a node, through the follower lists (followers and cooperators); the nodes
  above a node, through the leader links; and a tree without cycles: a rank, bounded by
  \<open>B\<close>, that drops from a node to each entry of its follower list.
\<close>

definition below :: "('d, 'z) heap \<Rightarrow> ref \<Rightarrow> ref set" where
  "below h f = {n. (f, n) \<in> rtrancl {(x, c). Some c \<in> set (followers (h x))}}"

definition above :: "('d, 'z) heap \<Rightarrow> ref \<Rightarrow> ref set" where
  "above h n = {l. (n, l) \<in> rtrancl {(x, l). leader (h x) = Some l}}"

definition ranked :: "('d, 'z) heap \<Rightarrow> (ref \<Rightarrow> nat) \<Rightarrow> nat \<Rightarrow> bool" where
  "ranked h rk B =
     ((\<forall>x c. Some c \<in> set (followers (h x)) \<longrightarrow> rk c < rk x) \<and> (\<forall>x. rk x \<le> B))"

text \<open>A root with the follower \<open>a\<close>, which has the follower \<open>b\<close>; and a rank for it.\<close>

definition named_heap :: "(unit, unit) heap" where
  "named_heap =
     (\<lambda>r. init (if r = 0 then ''root'' else if r = 1 then ''a'' else if r = 2 then ''b'' else [])
            [''prog''])"

definition small_tree :: "(unit, unit) heap" where
  "small_tree = setFollower (setFollower named_heap 0 1) 1 2"

definition small_rank :: "ref \<Rightarrow> nat" where
  "small_rank r = (if r = 0 then 2 else if r = 1 then 1 else 0)"

text \<open>
  For destruction: the nodes a node owns (itself, its followers in the sense of
  \<^verbatim>\<open>isFollower\<close>, their followers, and so on); a node none of whose entries is a
  follower of it any more; what destruction may change between two heaps (leaders and
  the lengths of the lists stay, deleted data stays deleted, a slot either keeps its
  entry or becomes \<^verbatim>\<open>None\<close> for a follower that is then destroyed itself); and what
  \<^verbatim>\<open>destructDownwards\<close> has done when it returns.
\<close>

definition owned :: "('d, 'z) heap \<Rightarrow> ref \<Rightarrow> ref set" where
  "owned h n = {m. (n, m) \<in> rtrancl {(x, y). isFollower h x y}}"










section \<open>Properties\<close>

subsection \<open>Auxiliary facts\<close>

lemma and_then_Inr: "and_then r f = Inr y \<longleftrightarrow> (\<exists>x. r = Inr x \<and> f x = Inr y)"
  by (cases r) (simp_all add: and_then_def)


lemma for_each_set_field:
  assumes "None \<notin> set xs" and idem: "\<And>n. upd (upd n) = upd n"
  shows "for_each xs (\<lambda>x h'. case x of None \<Rightarrow> Inl AttributeError
                    | Some y \<Rightarrow> Inr (h'(y := upd (h' y)))) h
         = Inr (\<lambda>r. if Some r \<in> set xs then upd (h r) else h r)"
  using assms(1)
proof (induction xs arbitrary: h)
  case Nil
  then show ?case by simp
next
  case (Cons x xs)
  then obtain y where y: "x = Some y" by (cases x) auto
  from Cons have "None \<notin> set xs" by simp
  from Cons.IH [OF this] show ?case
    by (auto simp: y idem fun_eq_iff)
qed

lemma destruct_follower_run:
  "destruct 2 env0 (setFollower new_heap 0 1) 1 =
     Inr (True, (setFollower new_heap 0 1)
                  (1 := (setFollower new_heap 0 1 1)\<lparr>data := Deleted\<rparr>,
                   0 := (setFollower new_heap 0 1 0)\<lparr>followers := [None]\<rparr>))"
  by (simp add: destruct_def destructFollower_def isCooperator_def and_then_def
      setFollower_def new_heap_def init_def env0_def numeral_2_eq_2 fun_eq_iff)

lemma holed_heap_0:
  "followers (holed_heap 0) = [None] \<and> leader (holed_heap 0) = None
   \<and> data (holed_heap 0) = Unset"
  unfolding holed_heap_def destruct_follower_run
  by (simp add: setFollower_def new_heap_def init_def)


lemma integrity_setFollower: "integrity h \<Longrightarrow> integrity (setFollower h L F)"
  unfolding integrity_def setFollower_def Let_def
  by (simp split: if_splits)

lemma integrity_setCooperator: "integrity h \<Longrightarrow> integrity (setCooperator h L C)"
  by (auto simp: integrity_def setCooperator_def)

lemma built_integrity: "built h \<Longrightarrow> integrity h"
proof (induction rule: built.induct)
  case (fresh h)
  then show ?case by (simp add: integrity_def)
next
  case (attach_follower h L F)
  from attach_follower.IH show ?case by (rule integrity_setFollower)
next
  case (attach_cooperator h L C)
  from attach_cooperator.IH show ?case by (rule integrity_setCooperator)
qed






lemma treeLevel_loop_cong:
  "\<forall>r. leader (h' r) = leader (h r) \<Longrightarrow> treeLevel_loop k h' p n = treeLevel_loop k h p n"
proof (induction k arbitrary: p n)
  case 0
  then show ?case by simp
next
  case (Suc k)
  then show ?case by (cases p) simp_all
qed

lemma write_msg_cong:
  "\<forall>r. leader (h' r) = leader (h r) \<Longrightarrow> write_msg k h self = Inr h \<Longrightarrow> write_msg k h' self = Inr h'"
  using treeLevel_loop_cong [of h' h k "leader (h self)" 0]
  by (auto simp: write_msg_def treeLevel_def and_then_Inr)

lemma for_each_same:
  assumes "for_each xs f s = Inr s'"
    and "\<And>x a b. x \<in> set xs \<Longrightarrow> f x a = Inr b \<Longrightarrow> b = a"
  shows "s' = s \<and> (\<forall>x\<in>set xs. f x s = Inr s)"
  using assms
proof (induction xs arbitrary: s)
  case Nil
  then show ?case by simp
next
  case (Cons x xs)
  from Cons.prems(1) obtain s1 where fx: "f x s = Inr s1" and rest: "for_each xs f s1 = Inr s'"
    by (auto split: sum.splits)
  from Cons.prems(2) [of x s s1] fx have "s1 = s" by simp
  with Cons.IH [of s] rest Cons.prems(2) fx show ?case by auto
qed

lemma for_each_all: "\<forall>x\<in>set xs. f x s = Inr s \<Longrightarrow> for_each xs f s = Inr s"
  by (induction xs) auto

lemma update_nonlinear_same:
  fixes h :: "('d, 'z) lheap"
  shows "update_nonlinear d h self = Inr h' \<Longrightarrow> h' = h"
proof (induction d arbitrary: self h h')
  case 0
  then show ?case by simp
next
  case (Suc d)
  let ?f = "\<lambda>x h'. case x of None \<Rightarrow> Inl AttributeError | Some y \<Rightarrow> update_nonlinear d h' y"
  from Suc.prems have run: "for_each (followers (h self)) ?f h = Inr h'" by simp
  have step: "\<And>x (a :: ('d, 'z) lheap) b.
      x \<in> set (followers (h self)) \<Longrightarrow> ?f x a = Inr b \<Longrightarrow> b = a"
    using Suc.IH by (auto split: option.splits)
  from for_each_same [OF run step] show ?case by simp
qed

lemma initial_condition_same:
  fixes h :: "('d, 'z) lheap"
  shows "initial_condition d h self = Inr h' \<Longrightarrow> h' = h"
proof (induction d arbitrary: self h h')
  case 0
  then show ?case by simp
next
  case (Suc d)
  let ?f = "\<lambda>x h'. case x of None \<Rightarrow> Inl AttributeError | Some y \<Rightarrow> initial_condition d h' y"
  from Suc.prems have run: "for_each (followers (h self)) ?f h = Inr h'" by simp
  have step: "\<And>x (a :: ('d, 'z) lheap) b.
      x \<in> set (followers (h self)) \<Longrightarrow> ?f x a = Inr b \<Longrightarrow> b = a"
    using Suc.IH by (auto split: option.splits)
  from for_each_same [OF run step] show ?case by simp
qed

lemma update_nonlinear_cong:
  fixes h :: "('d, 'z) lheap" and h' :: "('d, 'z) lheap"
  shows "\<forall>r. followers (h' r) = followers (h r) \<Longrightarrow> update_nonlinear d h self = Inr h \<Longrightarrow>
   update_nonlinear d h' self = Inr h'"
proof (induction d arbitrary: self)
  case 0
  then show ?case by simp
next
  case (Suc d)
  let ?f = "\<lambda>x h'. case x of None \<Rightarrow> Inl AttributeError | Some y \<Rightarrow> update_nonlinear d h' y"
  from Suc.prems(2) have run: "for_each (followers (h self)) ?f h = Inr h" by simp
  have step: "\<And>x (a :: ('d, 'z) lheap) b.
      x \<in> set (followers (h self)) \<Longrightarrow> ?f x a = Inr b \<Longrightarrow> b = a"
    using update_nonlinear_same by (auto split: option.splits)
  have "\<forall>x\<in>set (followers (h self)). ?f x h = Inr h"
    using for_each_same [OF run step] by simp
  then have "\<forall>x\<in>set (followers (h' self)). ?f x h' = Inr h'"
    using Suc.IH Suc.prems(1) by (auto split: option.splits)
  then show ?case by (simp add: for_each_all)
qed

lemma nonlinear_loop_run:
  fixes h g :: "('d, nat) lheap"
  assumes wl: "write_msg d h self = Inr h"
    and un: "update_nonlinear d h self = Inr h"
  shows "\<forall>r. leader (g r) = leader (h r) \<and> followers (g r) = followers (h r) \<Longrightarrow>
     it (g self) = int i - 1 \<Longrightarrow> int (i + n) \<le> n_it_max (g self) \<Longrightarrow>
     \<forall>m<n. \<not> (rs (loop.more (g self) + m) \<le> epsilon (g self) \<and> n_it_min (g self) \<le> int (i + m)) \<Longrightarrow>
     (rs (loop.more (g self) + n) \<le> epsilon (g self) \<and> n_it_min (g self) \<le> int (i + n))
       \<or> int (i + n) = n_it_max (g self) \<Longrightarrow>
     n + 2 \<le> k \<Longrightarrow>
     nonlinear_loop k d (sequence_task rs) self res g =
       Inr (Res (rs (loop.more (g self) + n)),
            g(self := (g self)\<lparr>it := int (i + n), loop.more := loop.more (g self) + n + 1\<rparr>))"
proof (induction n arbitrary: i g k res)
  case 0
  define k' where "k' = k - 2"
  have k: "k = Suc (Suc k')" using "0.prems"(6) by (simp add: k'_def)
  let ?g1 = "g(self := (g self)\<lparr>it := int i\<rparr>)"
  have s1: "\<forall>r. leader (?g1 r) = leader (h r)" and s2: "\<forall>r. followers (?g1 r) = followers (h r)"
    using "0.prems"(1) by auto
  have w: "write_msg d ?g1 self = Inr ?g1" by (rule write_msg_cong [OF s1 wl])
  have u: "update_nonlinear d ?g1 self = Inr ?g1" by (rule update_nonlinear_cong [OF s2 un])
  from "0.prems"(2,3,5) show ?case
    unfolding k nonlinear_loop.simps
    by (auto simp: w u and_then_def sequence_task_def)
next
  case (Suc n)
  define k' where "k' = k - 1"
  have k: "k = Suc k'" and k': "n + 2 \<le> k'" using Suc.prems(6) by (simp_all add: k'_def)
  let ?g1 = "g(self := (g self)\<lparr>it := int i\<rparr>)"
  let ?g3 = "g(self := (g self)\<lparr>it := int i, loop.more := Suc (loop.more (g self))\<rparr>)"
  have s1: "\<forall>r. leader (?g1 r) = leader (h r)" and s2: "\<forall>r. followers (?g1 r) = followers (h r)"
    using Suc.prems(1) by auto
  have w: "write_msg d ?g1 self = Inr ?g1" by (rule write_msg_cong [OF s1 wl])
  have u: "update_nonlinear d ?g1 self = Inr ?g1" by (rule update_nonlinear_cong [OF s2 un])
  have no0: "\<not> (rs (loop.more (g self)) \<le> epsilon (g self) \<and> n_it_min (g self) \<le> int i)"
    using Suc.prems(4) by (auto dest: spec [of _ 0])
  have lt: "it (g self) < n_it_max (g self)" using Suc.prems(2,3) by simp
  have step: "nonlinear_loop k d (sequence_task rs) self res g =
        nonlinear_loop k' d (sequence_task rs) self (Res (rs (loop.more (g self)))) ?g3"
    unfolding k nonlinear_loop.simps using lt no0 Suc.prems(2)
    by (auto simp: w u and_then_def sequence_task_def)
  have rec: "nonlinear_loop k' d (sequence_task rs) self (Res (rs (loop.more (g self)))) ?g3 =
       Inr (Res (rs (loop.more (?g3 self) + n)),
            ?g3(self := (?g3 self)\<lparr>it := int (Suc i + n), loop.more := loop.more (?g3 self) + n + 1\<rparr>))"
  proof (rule Suc.IH [OF _ _ _ _ _ k'])
    show "\<forall>r. leader (?g3 r) = leader (h r) \<and> followers (?g3 r) = followers (h r)"
      using Suc.prems(1) by auto
    show "it (?g3 self) = int (Suc i) - 1" by simp
    show "int (Suc i + n) \<le> n_it_max (?g3 self)" using Suc.prems(3) by simp
    show "\<forall>m<n. \<not> (rs (loop.more (?g3 self) + m) \<le> epsilon (?g3 self)
          \<and> n_it_min (?g3 self) \<le> int (Suc i + m))"
    proof (intro allI impI)
      fix m assume "m < n"
      then have "Suc m < Suc n" by simp
      with Suc.prems(4) have "\<not> (rs (loop.more (g self) + Suc m) \<le> epsilon (g self)
          \<and> n_it_min (g self) \<le> int (i + Suc m))" by blast
      then show "\<not> (rs (loop.more (?g3 self) + m) \<le> epsilon (?g3 self)
          \<and> n_it_min (?g3 self) \<le> int (Suc i + m))" by simp
    qed
    show "(rs (loop.more (?g3 self) + n) \<le> epsilon (?g3 self) \<and> n_it_min (?g3 self) \<le> int (Suc i + n))
       \<or> int (Suc i + n) = n_it_max (?g3 self)"
      using Suc.prems(5) by simp
  qed
  show ?case unfolding step rec by (simp add: fun_eq_iff)
qed

lemma nonlinear_loops_0:
  "nonlinear_loops 0 = (counting_loops 0)\<lparr>n_it_min := 2, n_it_max := 10, epsilon := 1 / 100\<rparr>"
  by (simp add: nonlinear_loops_def set_nonlinear_def clip_def counting_loops_def loop_init_def)

lemma transient_loop_run:
  fixes g :: "('d, real list) lheap"
  shows "leader (g self) = None \<Longrightarrow> followers (g self) = [] \<Longrightarrow> n_it_max (g self) \<le> 0 \<Longrightarrow>
     tEnd (g self) \<le> t (g self) + real n * dt (g self) + 1 / 10 ^ 10 \<Longrightarrow>
     \<forall>m<n. t (g self) + real m * dt (g self) + 1 / 10 ^ 10 < tEnd (g self) \<Longrightarrow>
     n < k \<Longrightarrow>
     transient_loop k (Suc d) timing_task self res g =
       Inr (if n = 0 then res else Res 0,
            g(self := (g self)\<lparr>t := t (g self) + real n * dt (g self),
                 loop.more := loop.more (g self)
                    @ map (\<lambda>m. t (g self) + real m * dt (g self)) [1..<Suc n]\<rparr>))"
proof (induction n arbitrary: g k res)
  case 0
  define k' where "k' = k - 1"
  have k: "k = Suc k'" using "0.prems"(6) by (simp add: k'_def)
  from "0.prems"(4) show ?case unfolding k by simp
next
  case (Suc n)
  define k' where "k' = k - 1"
  have k: "k = Suc k'" and k': "n < k'" using Suc.prems(6) by (simp_all add: k'_def)
  let ?g1 = "g(self := (g self)\<lparr>t := t (g self) + dt (g self)\<rparr>)"
  let ?g3 = "g(self := (g self)\<lparr>t := t (g self) + dt (g self),
                 loop.more := loop.more (g self) @ [t (g self) + dt (g self)]\<rparr>)"
  have go: "t (g self) + 1 / 10 ^ 10 < tEnd (g self)"
    using Suc.prems(5) by (auto dest: spec [of _ 0])
  have w: "write_msg (Suc d) ?g1 self = Inr ?g1"
    using Suc.prems(1) by (simp add: write_msg_def treeLevel_def and_then_def)
  have u: "update_transient (Suc d) ?g1 self = Inr ?g1"
    using Suc.prems(1,2) by (simp add: and_then_def fun_eq_iff)
  have step: "transient_loop k (Suc d) timing_task self res g =
        transient_loop k' (Suc d) timing_task self (Res 0) ?g3"
    unfolding k transient_loop.simps using go Suc.prems(3)
    by (simp add: w u and_then_def is_nonlinear_def timing_task_def del: update_transient.simps)
  have rec: "transient_loop k' (Suc d) timing_task self (Res 0) ?g3 =
       Inr (if n = 0 then Res 0 else Res 0,
            ?g3(self := (?g3 self)\<lparr>t := t (?g3 self) + real n * dt (?g3 self),
                 loop.more := loop.more (?g3 self)
                    @ map (\<lambda>m. t (?g3 self) + real m * dt (?g3 self)) [1..<Suc n]\<rparr>))"
  proof (rule Suc.IH [OF _ _ _ _ _ k'])
    show "leader (?g3 self) = None" "followers (?g3 self) = []" "n_it_max (?g3 self) \<le> 0"
      using Suc.prems(1,2,3) by simp_all
    show "tEnd (?g3 self) \<le> t (?g3 self) + real n * dt (?g3 self) + 1 / 10 ^ 10"
      using Suc.prems(4) by (simp add: algebra_simps)
    show "\<forall>m<n. t (?g3 self) + real m * dt (?g3 self) + 1 / 10 ^ 10 < tEnd (?g3 self)"
    proof (intro allI impI)
      fix m assume "m < n"
      then have "Suc m < Suc n" by simp
      with Suc.prems(5) have "t (g self) + real (Suc m) * dt (g self) + 1 / 10 ^ 10 < tEnd (g self)"
        by blast
      then show "t (?g3 self) + real m * dt (?g3 self) + 1 / 10 ^ 10 < tEnd (?g3 self)"
        by (simp add: algebra_simps)
    qed
  qed
  have lst: "map (\<lambda>m. t (g self) + real m * dt (g self)) [1..<Suc (Suc n)] =
      (t (g self) + dt (g self)) # map (\<lambda>m. t (g self) + dt (g self) + real m * dt (g self)) [1..<Suc n]"
  proof -
    have "[1..<Suc (Suc n)] = 1 # map Suc [1..<Suc n]"
      by (simp add: upt_conv_Cons map_Suc_upt del: upt_Suc)
    then show ?thesis by (simp add: comp_def algebra_simps del: upt_Suc)
  qed
  show ?case unfolding step rec lst
    by (simp add: fun_eq_iff algebra_simps del: upt_Suc)
qed

lemma set_transient_run:
  "set_transient timing_loops 0 0 (Some 1) (1 / 4) (1 / 2) 100 =
     Inr (timing_loops(0 := (timing_loops 0)\<lparr>t_begin := 0, tEnd := 1, dt := 1 / 100, theta := 1 / 2\<rparr>))"
  by (simp add: set_transient_def clip_def timing_loops_def loop_init_def fun_eq_iff)

lemma configured_0:
  "configured 0 = (timing_loops 0)\<lparr>t_begin := 0, tEnd := 1, dt := 1 / 100, theta := 1 / 2\<rparr>"
  unfolding configured_def set_transient_run by simp

lemma below_refl: "f \<in> below h f"
  by (simp add: below_def)

lemma below_step:
  assumes "Some c \<in> set (followers (h f))" and "n \<in> below h c"
  shows "n \<in> below h f"
proof -
  have "(f, c) \<in> {(x, c). Some c \<in> set (followers (h x))}" using assms(1) by simp
  moreover have "(c, n) \<in> rtrancl {(x, c). Some c \<in> set (followers (h x))}"
    using assms(2) by (simp add: below_def)
  ultimately have "(f, n) \<in> rtrancl {(x, c). Some c \<in> set (followers (h x))}"
    by (rule converse_rtrancl_into_rtrancl)
  then show ?thesis by (simp add: below_def)
qed

lemma below_cases:
  assumes "n \<in> below h f"
  shows "n = f \<or> (\<exists>c. Some c \<in> set (followers (h f)) \<and> n \<in> below h c)"
proof -
  from assms have "(f, n) \<in> rtrancl {(x, c). Some c \<in> set (followers (h x))}"
    by (simp add: below_def)
  then show ?thesis
  proof (cases rule: converse_rtranclE)
    case base
    then show ?thesis by simp
  next
    case (step z)
    then show ?thesis by (auto simp: below_def)
  qed
qed

lemma above_cases:
  assumes "R' \<in> above h N"
  shows "R' = N \<or> (\<exists>l. leader (h N) = Some l \<and> R' \<in> above h l)"
proof -
  from assms have "(N, R') \<in> rtrancl {(x, l). leader (h x) = Some l}"
    by (simp add: above_def)
  then show ?thesis
  proof (cases rule: converse_rtranclE)
    case base
    then show ?thesis by simp
  next
    case (step z)
    then show ?thesis by (auto simp: above_def)
  qed
qed

lemma above_step:
  assumes "leader (h N) = Some l" and "R \<in> above h l"
  shows "R \<in> above h N"
proof -
  have "(N, l) \<in> {(x, l). leader (h x) = Some l}" using assms(1) by simp
  moreover have "(l, R) \<in> rtrancl {(x, l). leader (h x) = Some l}"
    using assms(2) by (simp add: above_def)
  ultimately have "(N, R) \<in> rtrancl {(x, l). leader (h x) = Some l}"
    by (rule converse_rtrancl_into_rtrancl)
  then show ?thesis by (simp add: above_def)
qed

lemma below_trans: "m \<in> below h f \<Longrightarrow> n \<in> below h m \<Longrightarrow> n \<in> below h f"
  unfolding below_def by auto

lemma root_above:
  "root k h N = Inr R \<Longrightarrow>
     R \<in> above h N \<and> leader (h R) = None
     \<and> (\<forall>R'\<in>above h N. leader (h R') = None \<longrightarrow> R' = R)"
proof (induction k arbitrary: N)
  case 0
  then show ?case by simp
next
  case (Suc k)
  show ?case
  proof (cases "leader (h N)")
    case None
    from Suc.prems have "Inr N = (Inr R :: error + ref)" unfolding root.simps None by simp
    then have RN: "R = N" by simp
    have a: "N \<in> above h N" by (simp add: above_def)
    have b: "\<forall>R'\<in>above h N. leader (h R') = None \<longrightarrow> R' = N"
    proof (intro ballI impI)
      fix R' assume "R' \<in> above h N"
      from above_cases [OF this] None show "R' = N" by simp
    qed
    show ?thesis unfolding RN using None a b by blast
  next
    case (Some l)
    from Suc.prems have r: "root k h l = Inr R" unfolding root.simps Some by simp
    from Suc.IH [OF r] have ih1: "R \<in> above h l" and ih2: "leader (h R) = None"
      and ih3: "\<forall>R'\<in>above h l. leader (h R') = None \<longrightarrow> R' = R" by blast+
    have a: "R \<in> above h N"
      using Some ih1 by (rule above_step)
    have b: "\<forall>R'\<in>above h N. leader (h R') = None \<longrightarrow> R' = R"
    proof (intro ballI impI)
      fix R' assume 1: "R' \<in> above h N" and 2: "leader (h R') = None"
      from above_cases [OF 1] Some 2 have "R' \<in> above h l" by auto
      with ih3 2 show "R' = R" by blast
    qed
    show ?thesis using a b ih2 by blast
  qed
qed

lemma root_returns:
  "integrity h \<Longrightarrow> ranked h rk B \<Longrightarrow> B - rk N < k \<Longrightarrow> \<exists>R. root k h N = Inr R"
proof (induction k arbitrary: N)
  case 0
  then show ?case by simp
next
  case (Suc k)
  show ?case
  proof (cases "leader (h N)")
    case None
    then show ?thesis by simp
  next
    case (Some l)
    with Suc.prems(1) have "Some N \<in> set (followers (h l))" by (simp add: integrity_def)
    with Suc.prems(2) have "rk N < rk l" "rk l \<le> B" by (auto simp: ranked_def)
    with Suc.prems(3) have "B - rk l < k" by linarith
    from Suc.IH [OF Suc.prems(1,2) this] Some show ?thesis by simp
  qed
qed

lemma above_below: "integrity h \<Longrightarrow> R \<in> above h N \<Longrightarrow> N \<in> below h R"
proof -
  assume i: "integrity h"
  assume "R \<in> above h N"
  then have "(N, R) \<in> rtrancl {(x, l). leader (h x) = Some l}" by (simp add: above_def)
  then show "N \<in> below h R"
  proof (induction rule: converse_rtrancl_induct)
    case base
    then show ?case by (rule below_refl)
  next
    case (step y z)
    then have "Some y \<in> set (followers (h z))" using i by (simp add: integrity_def)
    then have "y \<in> below h z" by (rule below_step) (rule below_refl)
    with step.IH show ?case by (blast intro: below_trans)
  qed
qed

lemma first_some_if:
  "\<forall>x\<in>set xs. g x = Inr (if P x then Some N else None) \<Longrightarrow>
   first_some xs g = Inr (if \<exists>x\<in>set xs. P x then Some N else None)"
  by (induction xs) auto

lemma search_below:
  fixes h :: "('d, 'z) heap"
  assumes rk: "\<forall>x c. Some c \<in> set (followers (h x)) \<longrightarrow> rk c < rk x"
    and ns: "ident (h self) \<noteq> idt"
    and idN: "ident (h N) = idt"
  shows "rk f \<le> k \<Longrightarrow> \<forall>y\<in>below h f. ident (h y) = idt \<longrightarrow> y = N \<Longrightarrow>
     getFollowerDownwards (Suc k) h self idt (Some f) =
       Inr (if N \<in> below h f then Some N else None)"
proof (induction k arbitrary: f)
  case 0
  have nochild: "\<And>c. Some c \<notin> set (followers (h f))"
    using rk "0.prems"(1) by fastforce
  show ?case
  proof (cases "ident (h f) = idt")
    case True
    with "0.prems"(2) below_refl [of f h] have "f = N" by blast
    with True ns show ?thesis by (simp add: and_then_def below_refl)
  next
    case False
    have "\<forall>x\<in>set (followers (h f)).
        (case x of None \<Rightarrow> Inr None | Some node \<Rightarrow> getFollowerDownwards 0 h self idt (Some node))
        = Inr (if False then Some N else None)"
    proof
      fix x assume "x \<in> set (followers (h f))"
      with nochild have "x = None" by (cases x) auto
      then show "(case x of None \<Rightarrow> Inr None
                  | Some node \<Rightarrow> getFollowerDownwards 0 h self idt (Some node))
                 = Inr (if False then Some N else None)" by simp
    qed
    then have fs: "first_some (followers (h f))
        (\<lambda>x. case x of None \<Rightarrow> Inr None | Some node \<Rightarrow> getFollowerDownwards 0 h self idt (Some node))
        = Inr None"
      using first_some_if [of "followers (h f)" _ "\<lambda>_. False" N] by simp
    have "N \<notin> below h f"
    proof
      assume "N \<in> below h f"
      from below_cases [OF this] nochild False idN show False by auto
    qed
    moreover have "getFollowerDownwards (Suc 0) h self idt (Some f) =
        first_some (followers (h f))
          (\<lambda>x. case x of None \<Rightarrow> Inr None
                 | Some node \<Rightarrow> getFollowerDownwards 0 h self idt (Some node))"
      using False ns
      by (subst getFollowerDownwards.simps(2))
         (simp add: and_then_def del: getFollowerDownwards.simps)
    ultimately show ?thesis by (simp only: fs if_False)
  qed
next
  case (Suc k)
  show ?case
  proof (cases "ident (h f) = idt")
    case True
    with Suc.prems(2) below_refl [of f h] have "f = N" by blast
    with True ns show ?thesis by (simp add: and_then_def below_refl)
  next
    case False
    let ?g = "\<lambda>x. case x of None \<Rightarrow> Inr None
                      | Some node \<Rightarrow> getFollowerDownwards (Suc k) h self idt (Some node)"
    let ?P = "\<lambda>x. case x of None \<Rightarrow> False | Some c \<Rightarrow> N \<in> below h c"
    have each: "\<forall>x\<in>set (followers (h f)). ?g x = Inr (if ?P x then Some N else None)"
    proof
      fix x assume x: "x \<in> set (followers (h f))"
      show "?g x = Inr (if ?P x then Some N else None)"
      proof (cases x)
        case None
        then show ?thesis by simp
      next
        case (Some c)
        with x rk Suc.prems(1) have "rk c \<le> k" by fastforce
        moreover have "\<forall>y\<in>below h c. ident (h y) = idt \<longrightarrow> y = N"
          using Suc.prems(2) below_step [of c h f] x Some by blast
        ultimately have "getFollowerDownwards (Suc k) h self idt (Some c) =
            Inr (if N \<in> below h c then Some N else None)" by (rule Suc.IH)
        with Some show ?thesis by simp
      qed
    qed
    have fs: "first_some (followers (h f)) ?g =
        Inr (if \<exists>x\<in>set (followers (h f)). ?P x then Some N else None)"
      by (rule first_some_if [OF each])
    have "N \<in> below h f \<longleftrightarrow> (\<exists>x\<in>set (followers (h f)). ?P x)"
    proof
      assume "N \<in> below h f"
      from below_cases [OF this] False idN
      obtain c where "Some c \<in> set (followers (h f))" "N \<in> below h c" by auto
      then show "\<exists>x\<in>set (followers (h f)). ?P x" by force
    next
      assume "\<exists>x\<in>set (followers (h f)). ?P x"
      then obtain c where "Some c \<in> set (followers (h f))" "N \<in> below h c"
        by (auto split: option.splits)
      then show "N \<in> below h f" by (rule below_step)
    qed
    moreover have "getFollowerDownwards (Suc (Suc k)) h self idt (Some f) =
        first_some (followers (h f)) ?g"
      using False ns
      by (subst getFollowerDownwards.simps(2))
         (simp add: and_then_def del: getFollowerDownwards.simps)
    ultimately show ?thesis by (simp only: fs)
  qed
qed

lemma small_tree_nodes:
  "small_tree 0 = (named_heap 0)\<lparr>followers := [Some 1]\<rparr>"
  "small_tree (Suc 0) = (named_heap 1)\<lparr>leader := Some 0, followers := [Some 2]\<rparr>"
  "small_tree 2 = (named_heap 2)\<lparr>leader := Some 1\<rparr>"
  "2 < r \<Longrightarrow> small_tree r = named_heap r"
  by (simp_all add: small_tree_def setFollower_def named_heap_def init_def)



























lemma owned_into:
  assumes "w \<in> owned h y" and "isFollower h w z"
  shows "z \<in> owned h y"
proof -
  from assms(1) have "(y, w) \<in> rtrancl {(x, y). isFollower h x y}" by (simp add: owned_def)
  moreover have "(w, z) \<in> {(x, y). isFollower h x y}" using assms(2) by simp
  ultimately have "(y, z) \<in> rtrancl {(x, y). isFollower h x y}" by (rule rtrancl_into_rtrancl)
  then show ?thesis by (simp add: owned_def)
qed





subsection \<open>Rank skip\<close>

text \<open>
  When \<^verbatim>\<open>sys.modules\<close> has the key \<^verbatim>\<open>parallel\<close> and the rank is not 0,
  \<^verbatim>\<open>__call__\<close> returns \<open>-1.0\<close> at once: whatever the budget, the keyword arguments and
  the node, the heap is the one it was called with.
\<close>

lemma rank_skip: "nonprimary env \<Longrightarrow> call k env kwargs h self = Inr (- 1, h)"
  by (simp add: call_def)

lemma rank_skip_run:
  "nonprimary env_rank1 \<and> call 0 env_rank1 None new_heap 0 = Inr (- 1, new_heap)"
  by (simp add: call_def nonprimary_def env_rank1_def env0_def)

text \<open>
  C3. In a process of rank 1 that has imported \<^verbatim>\<open>grayboxes.parallel\<close> as \<^verbatim>\<open>base.py\<close>
  first tries to, the key \<^verbatim>\<open>parallel\<close> is not in \<^verbatim>\<open>sys.modules\<close>, and \<^verbatim>\<open>__call__\<close> on
  a new object does not skip: it runs \<^verbatim>\<open>prolog\<close>, \<^verbatim>\<open>pre\<close>, \<^verbatim>\<open>control\<close> with
  \<^verbatim>\<open>task\<close>, \<^verbatim>\<open>post\<close> and \<^verbatim>\<open>epilog\<close>, sets the three flags of the phases and returns
  the residuum \<open>0.0\<close>, not \<open>-1.0\<close>.
\<close>

theorem rank_skip_missed:
  "rank env_package_rank1 = Some 1 \<and> \<not> parallel_loaded env_package_rank1
   \<and> \<not> nonprimary env_package_rank1
   \<and> call 2 env_package_rank1 None new_heap 0 =
        Inr (0, new_heap(0 := (new_heap 0)\<lparr>preDone := True, taskDone := True, postDone := True\<rparr>))
   \<and> call 2 env_package_rank1 None new_heap 0 \<noteq> Inr (- 1, new_heap)"
  by (simp add: call_def nonprimary_def env_package_rank1_def env0_def prolog_def control_def
      silent_setter_def silent_getter_def isRoot_def write_msg_def treeLevel_def and_then_def
      new_heap_def init_def numeral_2_eq_2 fun_eq_iff Let_def)

subsection \<open>Traversal of a follower list with a hole\<close>

text \<open>
  C4. After \<^verbatim>\<open>F.destruct()\<close> the follower list of the leader is \<^verbatim>\<open>[None]\<close>, and
  each of \<^verbatim>\<open>pre\<close>, \<^verbatim>\<open>task\<close> and \<^verbatim>\<open>post\<close> on the leader raises \<^verbatim>\<open>AttributeError\<close>:
  the loops over the followers call the method on the entry \<^verbatim>\<open>None\<close>.
\<close>

theorem traversal_hole_raises:
  "followers (holed_heap 0) = [None]
   \<and> pre 3 env0 0 holed_heap = Inl AttributeError
   \<and> task 3 env0 0 holed_heap = Inl AttributeError
   \<and> post 3 env0 0 holed_heap = Inl AttributeError"
  using holed_heap_0 by (simp add: numeral_3_eq_3 and_then_def)

subsection \<open>Execution-mode flags\<close>

text \<open>
  What the three setters store. For a node whose follower list has no hole: assigning
  \<^verbatim>\<open>batch\<close>, and assigning \<^verbatim>\<open>gui\<close> when \<^verbatim>\<open>tkinter\<close> is loaded, stores the value in
  the node and in every node of its follower list, leaves every other node as it was, and
  a node attached afterwards keeps its own flag. Assigning \<^verbatim>\<open>silent\<close> stores the value
  in the node and leaves every other node as it was.
\<close>

lemma setters_store:
  "None \<notin> set (followers (h self)) \<Longrightarrow>
     (\<exists>h'. batch_setter h self v = Inr h' \<and> batch (h' self) = v
        \<and> (\<forall>f. Some f \<in> set (followers (h self)) \<longrightarrow> batch (h' f) = v)
        \<and> (\<forall>g. g \<noteq> self \<and> Some g \<notin> set (followers (h self)) \<longrightarrow>
               h' g = h g \<and> batch (setFollower h' self g g) = batch (h g)))
   \<and> (tkinter_loaded env \<longrightarrow>
       (\<exists>h'. gui_setter env h self v = Inr h' \<and> gui (h' self) = v
        \<and> (\<forall>f. Some f \<in> set (followers (h self)) \<longrightarrow> gui (h' f) = v)
        \<and> (\<forall>g. g \<noteq> self \<and> Some g \<notin> set (followers (h self)) \<longrightarrow>
               h' g = h g \<and> gui (setFollower h' self g g) = gui (h g))))
   \<and> silent (silent_setter h self v self) = v
   \<and> (\<forall>g. g \<noteq> self \<longrightarrow> silent_setter h self v g = h g)"
proof -
  assume nh: "None \<notin> set (followers (h self))"
  have b: "batch_setter h self v = Inr (\<lambda>r. if Some r \<in> set (followers (h self))
             then (if r = self then (h self)\<lparr>batch := v\<rparr> else h r)\<lparr>batch := v\<rparr>
             else if r = self then (h self)\<lparr>batch := v\<rparr> else h r)"
    unfolding batch_setter_def Let_def
    using for_each_set_field [where upd = "\<lambda>n. n\<lparr>batch := v\<rparr>" and xs = "followers (h self)"
        and h = "h(self := (h self)\<lparr>batch := v\<rparr>)"] nh
    by (simp add: fun_eq_iff)
  have g: "tkinter_loaded env \<Longrightarrow>
           gui_setter env h self v = Inr (\<lambda>r. if Some r \<in> set (followers (h self))
             then (if r = self then (h self)\<lparr>gui := v\<rparr> else h r)\<lparr>gui := v\<rparr>
             else if r = self then (h self)\<lparr>gui := v\<rparr> else h r)"
    unfolding gui_setter_def Let_def
    using for_each_set_field [where upd = "\<lambda>n. n\<lparr>gui := v\<rparr>" and xs = "followers (h self)"
        and h = "h(self := (h self)\<lparr>gui := v\<rparr>)"] nh
    by (simp add: fun_eq_iff)
  show ?thesis
    by (auto simp: b g silent_setter_def setFollower_def Let_def)
qed

text \<open>
  C5. The setter of \<^verbatim>\<open>silent\<close> does not do what the setters of \<^verbatim>\<open>gui\<close> and
  \<^verbatim>\<open>batch\<close> do. Node 0 has the follower 1. Assigning \<^verbatim>\<open>batch = True\<close> or
  \<^verbatim>\<open>gui = True\<close> to node 0 sets the flag of node 1; after \<^verbatim>\<open>silent = True\<close> on node 0
  the flag of node 1 is still \<^verbatim>\<open>False\<close>, and reading \<^verbatim>\<open>silent\<close> of node 1 gives
  \<^verbatim>\<open>False\<close>, so node 1 still prints.
\<close>

theorem silent_not_propagated:
  "isFollower (setFollower new_heap 0 1) 0 1
   \<and> (\<exists>h'. batch_setter (setFollower new_heap 0 1) 0 True = Inr h'
          \<and> batch (h' 0) = True \<and> batch (h' 1) = True)
   \<and> (\<exists>h'. gui_setter env0 (setFollower new_heap 0 1) 0 True = Inr h'
          \<and> gui (h' 0) = True \<and> gui (h' 1) = True)
   \<and> silent (silent_setter (setFollower new_heap 0 1) 0 True 0) = True
   \<and> silent (silent_setter (setFollower new_heap 0 1) 0 True 1) = False
   \<and> silent_getter env0 (silent_setter (setFollower new_heap 0 1) 0 True) 0 = True
   \<and> silent_getter env0 (silent_setter (setFollower new_heap 0 1) 0 True) 1 = False"
  by (simp add: isFollower_def silent_setter_def silent_getter_def nonprimary_def
      batch_setter_def gui_setter_def env0_def setFollower_def new_heap_def init_def)

subsection \<open>Integrity of the links\<close>




subsection \<open>One authoritative leader\<close>

text \<open>
  C10. In any heap a node is a follower, in the sense of \<^verbatim>\<open>isFollower\<close>, of at most one
  node. For two different nodes \<open>L1\<close> and \<open>L2\<close>: after \<^verbatim>\<open>L1.setFollower(n)\<close> the node
  \<open>n\<close> is a follower of \<open>L1\<close>; after \<^verbatim>\<open>L2.setFollower(n)\<close> on top of that, the leader of
  \<open>n\<close> is \<open>L2\<close>, \<open>n\<close> is still in the follower list of \<open>L1\<close>, \<^verbatim>\<open>L1.isFollower(n)\<close> is
  false and \<^verbatim>\<open>L1.isCooperator(n)\<close> is true.
\<close>

theorem unique_leader:
  "(isFollower h L1 n \<and> isFollower h L2 n \<longrightarrow> L1 = L2)
   \<and> (L1 \<noteq> L2 \<longrightarrow>
        leader (setFollower (setFollower h L1 n) L2 n n) = Some L2
        \<and> Some n \<in> set (followers (setFollower (setFollower h L1 n) L2 n L1))
        \<and> isFollower (setFollower h L1 n) L1 n
        \<and> \<not> isFollower (setFollower (setFollower h L1 n) L2 n) L1 n
        \<and> isCooperator (setFollower (setFollower h L1 n) L2 n) L1 n
        \<and> isFollower (setFollower (setFollower h L1 n) L2 n) L2 n)"
  by (auto simp: isFollower_def isCooperator_def setFollower_def Let_def)

theorem unique_leader_witness:
  "(0::nat) \<noteq> 1
   \<and> isFollower (setFollower new_heap 0 2) 0 2
   \<and> \<not> isFollower (setFollower (setFollower new_heap 0 2) 1 2) 0 2
   \<and> isCooperator (setFollower (setFollower new_heap 0 2) 1 2) 0 2"
  using unique_leader [of new_heap 0 2 1] by simp

subsection \<open>What \<^verbatim>\<open>pre\<close> returns\<close>



subsection \<open>Nonlinear iteration\<close>

text \<open>
  The local function \<^verbatim>\<open>_nonlinear_iteration\<close> as it is written, for a \<^verbatim>\<open>task\<close> that
  returns the residuals \<open>rs\<close> call after call, and when writing a line and
  \<^verbatim>\<open>update_nonlinear\<close> come back. Let \<open>j\<close> be the first iteration, counted from 0 and at
  most \<^verbatim>\<open>n_it_max\<close>, at which the residual is at most \<^verbatim>\<open>epsilon\<close> with \<open>j\<close> at least
  \<^verbatim>\<open>n_it_min\<close>, or at which \<open>j\<close> is \<^verbatim>\<open>n_it_max\<close>. Given \<open>j + 2\<close> passes or more, the
  function returns the residual of iteration \<open>j\<close> with \<^verbatim>\<open>it\<close> equal to \<open>j\<close>, after
  \<open>j + 1\<close> calls of \<^verbatim>\<open>task\<close>.
\<close>

lemma nonlinear_iteration_run:
  fixes h :: "('d, nat) lheap"
  assumes "treeLevel d h self = Inr lv"
    and "update_nonlinear d h self = Inr h1"
    and "int j \<le> n_it_max (h self)"
    and "\<forall>i<j. \<not> (rs (loop.more (h self) + i) \<le> epsilon (h self) \<and> n_it_min (h self) \<le> int i)"
    and "(rs (loop.more (h self) + j) \<le> epsilon (h self) \<and> n_it_min (h self) \<le> int j)
         \<or> int j = n_it_max (h self)"
    and "j + 2 \<le> k"
  shows "nonlinear_iteration k d (sequence_task rs) self h =
           Inr (Res (rs (loop.more (h self) + j)),
                h(self := (h self)\<lparr>it := int j, loop.more := loop.more (h self) + j + 1\<rparr>))"
proof -
  let ?g = "h(self := (h self)\<lparr>it := - 1\<rparr>)"
  have wl: "write_msg d h self = Inr h"
    using assms(1) by (simp add: write_msg_def and_then_def)
  have un: "update_nonlinear d h self = Inr h"
    using assms(2) update_nonlinear_same by blast
  have "nonlinear_loop k d (sequence_task rs) self Inf ?g =
       Inr (Res (rs (loop.more (?g self) + j)),
            ?g(self := (?g self)\<lparr>it := int (0 + j), loop.more := loop.more (?g self) + j + 1\<rparr>))"
    by (rule nonlinear_loop_run [OF wl un]) (use assms in auto)
  then show ?thesis by (simp add: nonlinear_iteration_def)
qed

text \<open>
  C1. In nonlinear mode without transient mode, \<^verbatim>\<open>Loop.control\<close> raises
  \<^verbatim>\<open>AttributeError\<close> at \<^verbatim>\<open>self.is_root()\<close>, whatever the \<^verbatim>\<open>task\<close>, the budgets and
  the state: it sets no iteration counter and calls neither \<^verbatim>\<open>update_nonlinear\<close> nor
  \<^verbatim>\<open>task\<close>, and it returns no residual.
\<close>

theorem nonlinear_control_raises:
  fixes h :: "('d, 'z) lheap"
  shows "is_nonlinear h self \<Longrightarrow> \<not> is_transient h self \<Longrightarrow>
         loop_control tk k d h self = Inl AttributeError"
  by (simp add: loop_control_def is_root_def and_then_def)

text \<open>
  The loop of the example, after \<^verbatim>\<open>set_nonlinear(n_it_min=2, n_it_max=10, epsilon=0.01)\<close>
  and with a \<^verbatim>\<open>task\<close> returning \<open>1.0, 0.5, 0.1, 0.005, 0.001, ...\<close>.
\<close>

theorem nonlinear_control_raises_witness:
  "n_it_max (nonlinear_loops 0) = 10 \<and> n_it_min (nonlinear_loops 0) = 2
   \<and> epsilon (nonlinear_loops 0) = 1 / 100
   \<and> is_nonlinear nonlinear_loops 0 \<and> \<not> is_transient nonlinear_loops 0
   \<and> loop_control (sequence_task residuals) 5 1 nonlinear_loops 0 = Inl AttributeError"
proof -
  have f: "n_it_max (nonlinear_loops 0) = 10" "n_it_min (nonlinear_loops 0) = 2"
    "epsilon (nonlinear_loops 0) = 1 / 100" "tEnd (nonlinear_loops 0) = 0"
    by (simp_all add: nonlinear_loops_0 counting_loops_def loop_init_def)
  have n: "is_nonlinear nonlinear_loops 0" and t: "\<not> is_transient nonlinear_loops 0"
    by (simp_all add: is_nonlinear_def is_transient_def f)
  from nonlinear_control_raises [OF n t, of "sequence_task residuals" 5 1] f n t
  show ?thesis by simp
qed

subsection \<open>Time stepping\<close>

text \<open>
  The \<^verbatim>\<open>while\<close> loop over the physical time as it is written, entered with \<^verbatim>\<open>t = 0\<close>
  and the settings that \<^verbatim>\<open>set_transient(t_begin=0, t_end=1.0, dt=0.25)\<close> stores: it
  calls \<^verbatim>\<open>task\<close> 100 times, at the times \<open>0.01, 0.02, ..., 1.0\<close>.
\<close>

lemma transient_loop_configured:
  "transient_loop 101 1 timing_task 0 Inf (configured(0 := (configured 0)\<lparr>t := 0\<rparr>)) =
     Inr (Res 0, configured(0 := (configured 0)
            \<lparr>t := 1, loop.more := map (\<lambda>m. real m / 100) [1..<101]\<rparr>))"
proof -
  have f: "tEnd (configured 0) = 1" "dt (configured 0) = 1 / 100" "n_it_max (configured 0) = 0"
    "leader (configured 0) = None" "followers (configured 0) = []" "loop.more (configured 0) = []"
    by (simp_all add: configured_0 timing_loops_def loop_init_def)
  let ?g = "configured(0 := (configured 0)\<lparr>t := 0\<rparr>)"
  have small: "\<forall>m<100. t (?g 0) + real m * dt (?g 0) + 1 / 10 ^ 10 < tEnd (?g 0)"
  proof (intro allI impI)
    fix m :: nat assume "m < 100"
    then have "real m \<le> 99" by simp
    then show "t (?g 0) + real m * dt (?g 0) + 1 / 10 ^ 10 < tEnd (?g 0)"
      by (simp add: f)
  qed
  have run: "transient_loop 101 (Suc 0) timing_task 0 Inf ?g =
       Inr (if (100::nat) = 0 then Inf else Res 0,
            ?g(0 := (?g 0)\<lparr>t := t (?g 0) + real 100 * dt (?g 0),
                 loop.more := loop.more (?g 0)
                    @ map (\<lambda>m. t (?g 0) + real m * dt (?g 0)) [1..<Suc 100]\<rparr>))"
    using small by (intro transient_loop_run [where n = 100 and g = ?g and self = 0]) (simp_all add: f)
  have "transient_loop 101 (Suc 0) timing_task 0 Inf ?g =
     Inr (Res 0, configured(0 := (configured 0)
            \<lparr>t := 1, loop.more := map (\<lambda>m. real m / 100) [1..<101]\<rparr>))"
    unfolding run by (simp add: f fun_eq_iff del: upt_Suc)
  then show ?thesis by (simp only: One_nat_def)
qed

text \<open>
  C2. \<^verbatim>\<open>set_transient(t_begin=0, t_end=1.0, dt=...)\<close> with the default \<^verbatim>\<open>n = 100\<close>
  stores the same settings whatever \<^verbatim>\<open>dt\<close> is passed: the time step it stores is
  \<^verbatim>\<open>(tEnd - t_begin) / n = 0.01\<close>, also for \<^verbatim>\<open>dt=0.25\<close>. The loop is then in transient
  mode and not in nonlinear mode, and \<^verbatim>\<open>Loop.control\<close> raises \<^verbatim>\<open>AttributeError\<close> at
  \<^verbatim>\<open>self.is_root()\<close>, before the time loop and without a call of \<^verbatim>\<open>task\<close>.
\<close>

theorem transient_dt_overwritten:
  "(\<forall>x. set_transient timing_loops 0 0 (Some 1) x (1 / 2) 100 = Inr configured)
   \<and> set_transient timing_loops 0 0 (Some 1) (1 / 4) (1 / 2) 100 = Inr configured
   \<and> t_begin (configured 0) = 0 \<and> tEnd (configured 0) = 1 \<and> dt (configured 0) = 1 / 100
   \<and> dt (configured 0) \<noteq> 1 / 4
   \<and> is_transient configured 0 \<and> \<not> is_nonlinear configured 0
   \<and> loop_control timing_task k d configured 0 = Inl AttributeError"
proof -
  have c: "set_transient timing_loops 0 0 (Some 1) x (1 / 2) 100 = Inr configured" for x
    unfolding configured_def set_transient_run
    by (simp add: set_transient_def clip_def timing_loops_def loop_init_def fun_eq_iff)
  have f: "tEnd (configured 0) = 1" "dt (configured 0) = 1 / 100" "n_it_max (configured 0) = 0"
    "t_begin (configured 0) = 0"
    by (simp_all add: configured_0 timing_loops_def loop_init_def)
  have tr: "is_transient configured 0" "\<not> is_nonlinear configured 0"
    by (simp_all add: is_transient_def is_nonlinear_def f)
  have l: "loop_control timing_task k d configured 0 = Inl AttributeError"
    using tr by (simp add: loop_control_def is_root_def and_then_def)
  from c f tr l show ?thesis by simp
qed

subsection \<open>Root and search\<close>

text \<open>
  C8. In a heap whose links have integrity and whose follower lists have no cycle (a
  rank bounded by \<open>B\<close>), with a budget above \<open>B\<close>: \<^verbatim>\<open>root\<close> called on a node
  \<open>N\<close> returns a node \<open>R\<close> without leader, which is above \<open>N\<close> and is the only node
  without leader above \<open>N\<close>; \<open>N\<close> is below \<open>R\<close>; and when no other node below \<open>R\<close> has
  the identifier of \<open>N\<close>, \<^verbatim>\<open>R.getFollower(N.identifier)\<close> returns \<open>N\<close>.
\<close>

theorem root_and_search:
  fixes h :: "('d, 'z) heap"
  assumes "integrity h" and "ranked h rk B" and "B < k"
  shows "\<exists>R. root k h N = Inr R \<and> leader (h R) = None \<and> R \<in> above h N
           \<and> (\<forall>R'\<in>above h N. leader (h R') = None \<longrightarrow> R' = R)
           \<and> N \<in> below h R
           \<and> ((\<forall>y\<in>below h R. ident (h y) = ident (h N) \<longrightarrow> y = N) \<longrightarrow>
                getFollower k h R (ident (h N)) = Inr (Some N))"
proof -
  from assms(3) have "B - rk N < k" by simp
  from root_returns [OF assms(1,2) this] obtain R where R: "root k h N = Inr R" by blast
  from root_above [OF R] have ab: "R \<in> above h N" and lR: "leader (h R) = None"
    and un: "\<forall>R'\<in>above h N. leader (h R') = None \<longrightarrow> R' = R" by blast+
  from above_below [OF assms(1) ab] have be: "N \<in> below h R" .
  define k1 where "k1 = k - 1"
  have k: "k = Suc k1" and k1: "B \<le> k1" using assms(3) by (simp_all add: k1_def)
  have "getFollower k h R (ident (h N)) = Inr (Some N)"
    if uq: "\<forall>y\<in>below h R. ident (h y) = ident (h N) \<longrightarrow> y = N"
  proof (cases "ident (h R) = ident (h N)")
    case True
    with uq below_refl [of R h] have "R = N" by blast
    then show ?thesis by (simp add: getFollower_def k)
  next
    case False
    have e: "getFollowerDownwards (Suc k1) h R (ident (h N)) None =
          getFollowerDownwards (Suc k1) h R (ident (h N)) (Some R)"
      using lR by (simp add: and_then_def)
    have "rk R \<le> B" using assms(2) by (simp add: ranked_def)
    with k1 have r1: "rk R \<le> k1" by simp
    have r2: "\<forall>x c. Some c \<in> set (followers (h x)) \<longrightarrow> rk c < rk x"
      using assms(2) by (simp add: ranked_def)
    from search_below [OF r2 False refl r1 uq] be
    have "getFollowerDownwards (Suc k1) h R (ident (h N)) (Some R) = Inr (Some N)" by simp
    with e show ?thesis by (simp only: getFollower_def k)
  qed
  with R lR ab un be show ?thesis by blast
qed

theorem root_and_search_witness:
  "integrity small_tree \<and> ranked small_tree small_rank 2
   \<and> root 3 small_tree 2 = Inr 0 \<and> leader (small_tree 0) = None
   \<and> ident (small_tree 2) = ''b''
   \<and> getFollower 3 small_tree 0 ''b'' = Inr (Some 2)"
proof -
  have "built named_heap" by (rule built.fresh) (simp add: named_heap_def init_def)
  then have "built small_tree" unfolding small_tree_def by (intro built.attach_follower)
  then have i: "integrity small_tree" by (rule built_integrity)
  have cases3: "\<And>r :: nat. r = 0 \<or> r = 1 \<or> r = 2 \<or> 2 < r" by linarith
  have rk: "ranked small_tree small_rank 2"
    unfolding ranked_def
  proof (intro conjI allI impI)
    fix x c assume "Some c \<in> set (followers (small_tree x))"
    with cases3 [of x] show "small_rank c < small_rank x"
      by (auto simp: small_tree_nodes small_rank_def named_heap_def init_def)
  next
    fix x show "small_rank x \<le> 2" by (simp add: small_rank_def)
  qed
  have r: "root 3 small_tree 2 = Inr 0"
    by (simp add: numeral_3_eq_3 small_tree_nodes named_heap_def init_def)
  have id: "ident (small_tree 2) = ''b''"
    by (simp add: small_tree_nodes named_heap_def init_def)
  have uq: "\<forall>y\<in>below small_tree 0. ident (small_tree y) = ident (small_tree 2) \<longrightarrow> y = 2"
  proof (intro ballI impI)
    fix y assume "ident (small_tree y) = ident (small_tree 2)"
    with cases3 [of y] show "y = 2"
      by (auto simp: small_tree_nodes named_heap_def init_def)
  qed
  from root_and_search [OF i rk, of 3 2] r uq id
  have "getFollower 3 small_tree 0 ''b'' = Inr (Some 2)" by auto
  with i rk r id show ?thesis by (simp add: small_tree_nodes named_heap_def init_def)
qed

subsection \<open>Destruction\<close>









end
